theory Spec2Isabelle
  imports Complex_Main "HOL-Library.Multiset" "HOL-Library.Log_Nat"
begin

section \<open>The 3D library view: navigation state and resources\<close>

text \<open>
  The component \<open>Library3DView\<close> keeps five pieces of React state
  (\<open>hasEntered\<close>, \<open>activeLayer\<close>, \<open>isWarping\<close>, \<open>isNavOpen\<close>,
  \<open>isHoveringEdge\<close>) and owns four browser resources: the timeouts started by
  \<open>triggerWarp\<close>, the \<open>mousemove\<close> and \<open>resize\<close> listeners, and the pending
  \<open>requestAnimationFrame(draw)\<close>. The record below holds the state of one rendered
  instance together with those resources. \<open>timeouts\<close> counts the pending
  \<open>setTimeout\<close> callbacks (all of them are \<open>() => setIsWarping(false)\<close>),
  \<open>drawCount\<close> counts how often \<open>draw\<close> has run.
\<close>

record view =
  mounted :: bool
  hasEntered :: bool
  activeLayer :: int
  isWarping :: bool
  isNavOpen :: bool
  isHoveringEdge :: bool
  timeouts :: nat
  mousemoveListener :: bool
  resizeListener :: bool
  frameRequest :: bool
  drawCount :: nat

text \<open>
  What the handlers read from outside the component: \<open>window.innerWidth\<close>, whether
  the canvas and its 2D context are available, and \<open>booksByCategory.length\<close>.
\<close>

record env =
  innerWidth :: int
  canvasOk :: bool
  layerCount :: nat

text \<open>The state after the first render: \<open>useState\<close> initial values, nothing scheduled.\<close>

definition mountView :: view where
  "mountView = \<lparr>mounted = True, hasEntered = False, activeLayer = 0, isWarping = False,
     isNavOpen = False, isHoveringEdge = False, timeouts = 0, mousemoveListener = False,
     resizeListener = False, frameRequest = False, drawCount = 0\<rparr>"

subsection \<open>Handlers\<close>

text \<open>\<open>triggerWarp\<close>: \<open>setIsWarping(true); setTimeout(() => setIsWarping(false), 900)\<close>.
  The timer id returned by \<open>setTimeout\<close> is dropped.\<close>

definition triggerWarp :: "view \<Rightarrow> view" where
  "triggerWarp v = v\<lparr>isWarping := True, timeouts := Suc (timeouts v)\<rparr>"

text \<open>\<open>goToLayer\<close>: returns early when \<open>index === activeLayer || isWarping\<close>;
  there is no other test on \<open>index\<close>.\<close>

definition goToLayer :: "env \<Rightarrow> int \<Rightarrow> view \<Rightarrow> view" where
  "goToLayer e index v =
     (if index = activeLayer v \<or> isWarping v then v
      else let v1 = triggerWarp v;
               v2 = v1\<lparr>activeLayer := index\<rparr>
           in if innerWidth e < 768 then v2\<lparr>isNavOpen := False\<rparr> else v2)"

definition handleNext :: "env \<Rightarrow> view \<Rightarrow> view" where
  "handleNext e v =
     (if activeLayer v < int (layerCount e) - 1 then goToLayer e (activeLayer v + 1) v else v)"

definition handlePrev :: "env \<Rightarrow> view \<Rightarrow> view" where
  "handlePrev e v = (if activeLayer v > 0 then goToLayer e (activeLayer v - 1) v else v)"

text \<open>\<open>handleMouseMove\<close>, with \<open>clientX\<close> as its argument.\<close>

definition handleMouseMove :: "real \<Rightarrow> view \<Rightarrow> view" where
  "handleMouseMove clientX v =
     (if isNavOpen v then v
      else if clientX < 40 then v\<lparr>isHoveringEdge := True\<rparr>
      else if clientX > 120 then v\<lparr>isHoveringEdge := False\<rparr>
      else v)"

subsection \<open>Effects\<close>

text \<open>
  The proximity effect (dependencies \<open>[hasEntered, isNavOpen]\<close>): its cleanup removes
  the \<open>mousemove\<close> listener; its body returns at once unless \<open>hasEntered\<close>, and
  otherwise registers the listener.
\<close>

definition mouseEffectCleanup :: "view \<Rightarrow> view" where
  "mouseEffectCleanup v = v\<lparr>mousemoveListener := False\<rparr>"

definition mouseEffect :: "view \<Rightarrow> view" where
  "mouseEffect v = (if \<not> hasEntered v then v else v\<lparr>mousemoveListener := True\<rparr>)"

text \<open>
  The particle effect (dependencies \<open>[hasEntered, isWarping]\<close>): its cleanup removes
  the \<open>resize\<close> listener and calls \<open>cancelAnimationFrame(animationFrameId)\<close>; its
  body returns at once unless \<open>hasEntered\<close> and the canvas with its context is there,
  and otherwise registers \<open>resize\<close>, creates the particles and calls \<open>draw\<close>, which
  ends by requesting the next frame.
\<close>

definition particleEffectCleanup :: "view \<Rightarrow> view" where
  "particleEffectCleanup v = v\<lparr>resizeListener := False, frameRequest := False\<rparr>"

definition particleEffect :: "env \<Rightarrow> view \<Rightarrow> view" where
  "particleEffect e v =
     (if \<not> hasEntered v \<or> \<not> canvasOk e then v
      else v\<lparr>resizeListener := True, drawCount := Suc (drawCount v), frameRequest := True\<rparr>)"

text \<open>
  A render commits the new state; every effect whose dependencies changed runs its
  cleanup and then its body again.
\<close>

definition commit :: "env \<Rightarrow> view \<Rightarrow> view \<Rightarrow> view" where
  "commit e old new =
     (let v1 = (if (hasEntered old, isNavOpen old) \<noteq> (hasEntered new, isNavOpen new)
                then mouseEffect (mouseEffectCleanup new) else new);
          v2 = (if (hasEntered old, isWarping old) \<noteq> (hasEntered new, isWarping new)
                then particleEffect e (particleEffectCleanup v1) else v1)
      in v2)"

text \<open>Unmounting runs the cleanup of both effects; nothing else is released.\<close>

definition unmount :: "view \<Rightarrow> view" where
  "unmount v = (particleEffectCleanup (mouseEffectCleanup v))\<lparr>mounted := False\<rparr>"

subsection \<open>Events\<close>

text \<open>
  What can happen to a view: the clicks that call its handlers, a pointer move, the
  expiry of a timeout, an animation frame, and the parent unmounting it. A click reaches
  a handler only while the view is mounted; a pointer move reaches \<open>handleMouseMove\<close>
  only while the listener is registered; a frame runs \<open>draw\<close> only while a request is
  pending. A timeout that expires runs its callback whatever happened to the view; React
  ignores a state update of an unmounted component.
\<close>

datatype event =
    Enter
  | GoTo int
  | Next
  | Prev
  | ToggleNav
  | MouseMove real
  | Timeout
  | Frame
  | Unmount

fun step :: "env \<Rightarrow> view \<Rightarrow> event \<Rightarrow> view" where
  "step e v Enter = (if mounted v then commit e v (v\<lparr>hasEntered := True\<rparr>) else v)"
| "step e v (GoTo i) = (if mounted v then commit e v (goToLayer e i v) else v)"
| "step e v Next = (if mounted v then commit e v (handleNext e v) else v)"
| "step e v Prev = (if mounted v then commit e v (handlePrev e v) else v)"
| "step e v ToggleNav = (if mounted v then commit e v (v\<lparr>isNavOpen := \<not> isNavOpen v\<rparr>) else v)"
| "step e v (MouseMove clientX) =
     (if mousemoveListener v then commit e v (handleMouseMove clientX v) else v)"
| "step e v Timeout =
     (if timeouts v = 0 then v
      else let v' = v\<lparr>timeouts := timeouts v - 1\<rparr>
           in if mounted v then commit e v (v'\<lparr>isWarping := False\<rparr>) else v')"
| "step e v Frame = (if frameRequest v then v\<lparr>drawCount := Suc (drawCount v)\<rparr> else v)"
| "step e v Unmount = (if mounted v then unmount v else v)"

text \<open>The states a sequence of events goes through, the starting state first.\<close>

fun run :: "env \<Rightarrow> view \<Rightarrow> event list \<Rightarrow> view list" where
  "run e v [] = [v]"
| "run e v (ev # evs) = v # run e (step e v ev) evs"

section \<open>The particle field\<close>

text \<open>
  The particle effect keeps an array of 150 objects \<open>{x, y, z, size, speed}\<close>; the
  fields are written \<open>p_x\<close>, \<open>p_y\<close>, \<open>p_z\<close>, \<open>p_size\<close>, \<open>p_speed\<close> here,
  after the loop variable \<open>p\<close> of \<open>draw\<close>. JavaScript numbers are doubles; the
  definitions of this section compute with exact reals, which is enough for bounds on
  the depth, and \<open>advance64\<close> at the end of the section rounds as the engine does,
  for statements about the value of the depth. \<open>Math.random()\<close> is a parameter: \<open>random i\<close> is the value of the
  \<open>i\<close>-th call, and \<open>createParticles\<close> makes five calls per particle, in the order
  of the object literal.
\<close>

record particle =
  p_x :: real
  p_y :: real
  p_z :: real
  p_size :: real
  p_speed :: real

definition particleCount :: nat where
  "particleCount = 150"

definition createParticles :: "(nat \<Rightarrow> real) \<Rightarrow> real \<Rightarrow> real \<Rightarrow> particle list" where
  "createParticles random width height =
     map (\<lambda>i. \<lparr>p_x = (random (5 * i) - 0.5) * width * 2,
               p_y = (random (5 * i + 1) - 0.5) * height * 2,
               p_z = random (5 * i + 2) * 2000,
               p_size = random (5 * i + 3) * 2 + 1,
               p_speed = random (5 * i + 4) * 2 + 1\<rparr>) [0..<particleCount]"

text \<open>
  The body of the \<open>forEach\<close> in \<open>draw\<close> has two parts. The first moves the
  particle: \<open>p.z -= p.speed * (isWarping ? 12 : 1); if (p.z <= 0) p.z = 2000\<close>.
\<close>

definition advance :: "bool \<Rightarrow> particle \<Rightarrow> particle" where
  "advance warping p =
     (let p1 = p\<lparr>p_z := p_z p - p_speed p * (if warping then 12 else 1)\<rparr>
      in if p_z p1 \<le> 0 then p1\<lparr>p_z := 2000\<rparr> else p1)"

text \<open>
  The second part projects the moved particle and paints it when the projected point
  is strictly inside the canvas: a filled arc at \<open>(px, py)\<close> of radius \<open>size\<close> with
  the alpha channel of \<open>fillStyle\<close>, and while warping a line from \<open>(px, py)\<close> to
  the centre with the alpha channel of \<open>strokeStyle\<close>.
\<close>

datatype shape =
    Arc real real real real
  | Line real real real real real

definition project :: "bool \<Rightarrow> real \<Rightarrow> real \<Rightarrow> particle \<Rightarrow> shape list" where
  "project warping width height p =
     (let centerX = width / 2;
          centerY = height / 2;
          k = 1000 / p_z p;
          px = p_x p * k + centerX;
          py = p_y p * k + centerY
      in if px > 0 \<and> px < width \<and> py > 0 \<and> py < height
         then (let size = p_size p * k;
                   alpha = (2000 - p_z p) / 2000
               in Arc px py size (alpha * 0.5)
                  # (if warping then [Line px py centerX centerY (alpha * 0.15)] else []))
         else [])"

text \<open>One call of \<open>draw\<close>: the particles after it and what it painted.\<close>

definition draw :: "bool \<Rightarrow> real \<Rightarrow> real \<Rightarrow> particle list \<Rightarrow> particle list \<times> shape list" where
  "draw warping width height ps =
     (let ps' = map (advance warping) ps
      in (ps', concat (map (project warping width height) ps')))"

text \<open>
  The particles after \<open>n\<close> calls of \<open>draw\<close>. Within one run of the effect
  \<open>isWarping\<close> is fixed: when it changes, the effect is cleaned up and run again, which
  creates the particles anew.
\<close>

fun frames :: "bool \<Rightarrow> real \<Rightarrow> real \<Rightarrow> nat \<Rightarrow> particle list \<Rightarrow> particle list" where
  "frames warping width height 0 ps = ps"
| "frames warping width height (Suc n) ps =
     frames warping width height n (fst (draw warping width height ps))"


subsection \<open>The move in double arithmetic\<close>

text \<open>
  A finite double is a real \<open>n * 2 powi e\<close> with an integer \<open>n\<close> of at most 53
  bits. \<open>expo x\<close> is the exponent of the binade of \<open>x\<close>, the integer \<open>e\<close> with
  \<open>2 powi e \<le> \<bar>x\<bar> < 2 powi (e + 1)\<close>, and \<open>round64\<close> rounds a real to the
  nearest double, a tie going to the even significand, as every arithmetic operation of
  the engine does with its exact result. Subnormal results, overflow and NaN are left
  out: in \<open>draw\<close> the product \<open>speed * 12\<close> lies between 1 and 36, and the
  difference of a depth of at most 2000 and that product is zero or at least
  \<open>2 powi (- 53)\<close> in size.
\<close>

definition expo :: "real \<Rightarrow> int" where
  "expo x = (if 1 \<le> \<bar>x\<bar> then bitlen \<lfloor>\<bar>x\<bar>\<rfloor> - 1 else - bitlen (\<lceil>1 / \<bar>x\<bar>\<rceil> - 1))"

definition round64 :: "real \<Rightarrow> real" where
  "round64 x =
     (if x = 0 then 0
      else let ulp = 2 powi (expo x - 52);
               q = x / ulp;
               n = \<lfloor>q\<rfloor>;
               r = q - of_int n
           in of_int (if r < 1 / 2 then n else if 1 / 2 < r then n + 1
                      else if even n then n else n + 1) * ulp)"

text \<open>The operators \<open>*\<close> and \<open>-\<close> on doubles.\<close>

definition dmul :: "real \<Rightarrow> real \<Rightarrow> real" where
  "dmul a b = round64 (a * b)"

definition dsub :: "real \<Rightarrow> real \<Rightarrow> real" where
  "dsub a b = round64 (a - b)"

text \<open>
  The move of one particle as the engine computes it:
  \<open>p.z -= p.speed * (isWarping ? 12 : 1); if (p.z <= 0) p.z = 2000\<close>, and what one
  call of \<open>draw\<close> leaves in the particle array.
\<close>

definition advance64 :: "bool \<Rightarrow> particle \<Rightarrow> particle" where
  "advance64 warping p =
     (let p1 = p\<lparr>p_z := dsub (p_z p) (dmul (p_speed p) (if warping then 12 else 1))\<rparr>
      in if p_z p1 \<le> 0 then p1\<lparr>p_z := 2000\<rparr> else p1)"

definition tick64 :: "bool \<Rightarrow> particle list \<Rightarrow> particle list" where
  "tick64 warping ps = map (advance64 warping) ps"

section \<open>Grouping the books into layers\<close>

text \<open>
  A JavaScript string is a sequence of UTF-16 code units. Of a \<open>Book\<close> the view reads
  \<open>id\<close>, \<open>title\<close>, \<open>category\<close> and \<open>coverUrl\<close>; \<open>category\<close> may be missing.
\<close>

type_synonym jsstring = "nat list"

record book =
  book_id :: jsstring
  title :: jsstring
  category :: "jsstring option"
  coverUrl :: "jsstring option"

text \<open>The six names of \<open>defaultCats\<close> and the fallback name of \<open>book.category || ...\<close>.\<close>

definition defaultCats :: "jsstring list" where
  "defaultCats =
     [[0x5546, 0x696D, 0x7406, 0x8CA1],
      [0x5FC3, 0x7406, 0x52F5, 0x5FD7],
      [0x6587, 0x5B78, 0x5C0F, 0x8AAA],
      [0x4EBA, 0x6587, 0x793E, 0x79D1],
      [0x79D1, 0x5E7B, 0x5C0F, 0x8AAA],
      [0x81EA, 0x6211, 0x6210, 0x9577]]"

definition uncategorized :: jsstring where
  "uncategorized = [0x672A, 0x5206, 0x985E]"

text \<open>\<open>book.category || ...\<close>: a missing category and the empty string are both falsy.\<close>

definition categoryOf :: "book \<Rightarrow> jsstring" where
  "categoryOf b =
     (case category b of
        None \<Rightarrow> uncategorized
      | Some c \<Rightarrow> if c = [] then uncategorized else c)"

text \<open>
  \<open>groups\<close> is created by the literal \<open>{}\<close>, an ordinary object whose prototype is
  \<open>Object.prototype\<close>. Its own properties are kept in creation order. Reading
  \<open>groups[key]\<close> gives the own property if there is one, otherwise what
  \<open>Object.prototype\<close> has under that name (a function, or the prototype itself for
  \<open>__proto__\<close>), otherwise \<open>undefined\<close>.
\<close>

definition objectPrototypeKeys :: "jsstring list" where
  "objectPrototypeKeys = map (map of_char)
     [''constructor'', ''__defineGetter__'', ''__defineSetter__'', ''hasOwnProperty'',
      ''__lookupGetter__'', ''__lookupSetter__'', ''isPrototypeOf'', ''propertyIsEnumerable'',
      ''toString'', ''valueOf'', ''__proto__'', ''toLocaleString'']"

datatype error = TypeError

datatype jsvalue = Undefined | Array "book list" | Inherited

type_synonym groups = "(jsstring \<times> book list) list"

definition getProp :: "groups \<Rightarrow> jsstring \<Rightarrow> jsvalue" where
  "getProp g key =
     (case map_of g key of
        Some items \<Rightarrow> Array items
      | None \<Rightarrow> if key \<in> set objectPrototypeKeys then Inherited else Undefined)"

text \<open>\<open>groups[key] = items\<close>: an own property keeps its place, a new one goes last.\<close>

fun setProp :: "jsstring \<Rightarrow> book list \<Rightarrow> groups \<Rightarrow> groups" where
  "setProp key items [] = [(key, items)]"
| "setProp key items ((k, old) # g) =
     (if k = key then (k, items) # g else (k, old) # setProp key items g)"

text \<open>
  The body of \<open>books.forEach\<close>: \<open>if (!groups[cat]) groups[cat] = []\<close>, where only
  \<open>undefined\<close> is falsy, then \<open>groups[cat].push(book)\<close>, which is a \<open>TypeError\<close>
  when \<open>groups[cat]\<close> is not an array.
\<close>

definition addBook :: "groups \<Rightarrow> book \<Rightarrow> error + groups" where
  "addBook g b =
     (let cat = categoryOf b;
          g1 = (case getProp g cat of Undefined \<Rightarrow> setProp cat [] g | _ \<Rightarrow> g)
      in case getProp g1 cat of
           Array items \<Rightarrow> Inr (setProp cat (items @ [b]) g1)
         | _ \<Rightarrow> Inl TypeError)"

fun addBooks :: "groups \<Rightarrow> book list \<Rightarrow> error + groups" where
  "addBooks g [] = Inr g"
| "addBooks g (b # bs) = (case addBook g b of Inl err \<Rightarrow> Inl err | Inr g' \<Rightarrow> addBooks g' bs)"

text \<open>
  \<open>Object.entries\<close> lists the own properties: first the keys that are array indices
  (the canonical decimal form of an integer from 0 to \<open>2\<^sup>3\<^sup>2 - 2\<close>) in ascending
  numeric order, then the other keys in creation order.
\<close>

definition isDigit :: "nat \<Rightarrow> bool" where
  "isDigit c = (48 \<le> c \<and> c \<le> 57)"

definition indexValue :: "jsstring \<Rightarrow> nat" where
  "indexValue s = foldl (\<lambda>acc c. 10 * acc + (c - 48)) 0 s"

definition isArrayIndex :: "jsstring \<Rightarrow> bool" where
  "isArrayIndex s =
     (s \<noteq> [] \<and> list_all isDigit s \<and> \<not> (hd s = 48 \<and> 1 < length s)
      \<and> indexValue s < 4294967295)"

definition entries :: "groups \<Rightarrow> (jsstring \<times> book list) list" where
  "entries g =
     sort_key (\<lambda>kv. indexValue (fst kv)) (filter (\<lambda>kv. isArrayIndex (fst kv)) g)
     @ filter (\<lambda>kv. \<not> isArrayIndex (fst kv)) g"

text \<open>
  \<open>Array.prototype.sort\<close> with a comparator is stable; for a consistent comparator the
  result is the one stable insertion gives.
\<close>

fun insertBy :: "('a \<Rightarrow> 'a \<Rightarrow> int) \<Rightarrow> 'a \<Rightarrow> 'a list \<Rightarrow> 'a list" where
  "insertBy cmp a [] = [a]"
| "insertBy cmp a (b # bs) = (if cmp a b \<le> 0 then a # b # bs else b # insertBy cmp a bs)"

definition sortBy :: "('a \<Rightarrow> 'a \<Rightarrow> int) \<Rightarrow> 'a list \<Rightarrow> 'a list" where
  "sortBy cmp xs = foldr (insertBy cmp) xs []"

text \<open>The comparator \<open>(a, b) => b[1].length - a[1].length\<close>.\<close>

definition byCount :: "jsstring \<times> book list \<Rightarrow> jsstring \<times> book list \<Rightarrow> int" where
  "byCount a b = int (length (snd b)) - int (length (snd a))"

definition booksByCategory :: "book list \<Rightarrow> error + (jsstring \<times> book list) list" where
  "booksByCategory books =
     (let groups = foldl (\<lambda>g c. setProp c [] g) [] defaultCats
      in case addBooks groups books of
           Inl err \<Rightarrow> Inl err
         | Inr groups' \<Rightarrow> Inr (sortBy byCount (entries groups')))"

text \<open>\<open>booksByCategory.length\<close>, which the view can read only if the grouping returned.\<close>

definition bucketCount :: "book list \<Rightarrow> nat option" where
  "bucketCount books = (case booksByCategory books of Inl err \<Rightarrow> None | Inr r \<Rightarrow> Some (length r))"

section \<open>Notions used in the statements\<close>

text \<open>An event whose \<open>goToLayer\<close> index, if it has one, names one of the \<open>n\<close> layers.\<close>

fun indexInRange :: "nat \<Rightarrow> event \<Rightarrow> bool" where
  "indexInRange n (GoTo i) = (0 \<le> i \<and> i < int n)"
| "indexInRange n _ = True"

definition activeInRange :: "nat \<Rightarrow> view \<Rightarrow> bool" where
  "activeInRange n v = (0 \<le> activeLayer v \<and> activeLayer v < int n)"

text \<open>The state reached from the mounted view by a sequence of events.\<close>

definition final :: "env \<Rightarrow> event list \<Rightarrow> view" where
  "final e evs = last (run e mountView evs)"

text \<open>
  A view \<open>v\<close> in the torn-down state \<open>u\<close>: unmounted, no frame requested, no pointer
  listener, and equal to \<open>u\<close> except that timeouts may have expired since.
\<close>

definition torndown :: "view \<Rightarrow> view \<Rightarrow> bool" where
  "torndown u v = (\<not> mounted v \<and> \<not> frameRequest v \<and> \<not> mousemoveListener v
     \<and> timeouts v \<le> timeouts u \<and> v\<lparr>timeouts := 0\<rparr> = u\<lparr>timeouts := 0\<rparr>)"

text \<open>A wide window with a working canvas and the six default layers.\<close>

definition desktop :: env where
  "desktop = \<lparr>innerWidth = 1024, canvasOk = True, layerCount = 6\<rparr>"

text \<open>
  The hysteresis rule in the words of the specification, with \<open>near = 40\<close> and
  \<open>far = 120\<close>, and the visibility it gives after each pointer position of a sequence.
\<close>

fun proximity :: "bool \<Rightarrow> real \<Rightarrow> bool" where
  "proximity visible clientX =
     (if clientX < 40 then True else if clientX > 120 then False else visible)"

fun visibilitySeq :: "bool \<Rightarrow> real list \<Rightarrow> bool list" where
  "visibilitySeq visible [] = []"
| "visibilitySeq visible (c # cs) = proximity visible c # visibilitySeq (proximity visible c) cs"

text \<open>The depth interval \<open>(0, MAX_DEPTH]\<close>, and the test \<open>draw\<close> makes before painting.\<close>

definition depthInRange :: "particle \<Rightarrow> bool" where
  "depthInRange p = (0 < p_z p \<and> p_z p \<le> 2000)"


text \<open>What every particle satisfies from its creation on: depth at most 2000, speed at least 1.\<close>

definition startable :: "particle \<Rightarrow> bool" where
  "startable p = (p_z p \<le> 2000 \<and> 1 \<le> p_speed p)"

text \<open>The books of one category, in input order.\<close>

definition bucketOf :: "book list \<Rightarrow> jsstring \<Rightarrow> book list" where
  "bucketOf books c = filter (\<lambda>b. categoryOf b = c) books"

text \<open>
  The order in which names are first seen, in the words of the specification: the names
  already seen keep their order, and each name not seen before goes last.
\<close>

fun firstSeenFrom :: "'a list \<Rightarrow> 'a list \<Rightarrow> 'a list" where
  "firstSeenFrom seen [] = seen"
| "firstSeenFrom seen (c # cs) = firstSeenFrom (if c \<in> set seen then seen else seen @ [c]) cs"

text \<open>
  The order of the keys of \<open>groups\<close> as \<open>Object.entries\<close> lists them: the array
  indices among the first-seen names in numeric order, then the other names as first seen.
\<close>

definition keyOrder :: "book list \<Rightarrow> jsstring list" where
  "keyOrder books =
     (let names = firstSeenFrom defaultCats (map categoryOf books)
      in sort_key indexValue (filter isArrayIndex names) @ filter (\<lambda>c. \<not> isArrayIndex c) names)"

text \<open>The object with the keys \<open>ks\<close>, in that order, and the value \<open>h k\<close> under \<open>k\<close>.\<close>

definition tabulate :: "(jsstring \<Rightarrow> book list) \<Rightarrow> jsstring list \<Rightarrow> groups" where
  "tabulate h ks = map (\<lambda>k. (k, h k)) ks"

text \<open>Example books: a one-character id, no title, no cover.\<close>

definition exampleBook :: "nat \<Rightarrow> jsstring option \<Rightarrow> book" where
  "exampleBook n c = \<lparr>book_id = [48 + n], title = [], category = c, coverUrl = None\<rparr>"

section \<open>Navigation\<close>

lemma activeLayer_commit [simp]: "activeLayer (commit e old new) = activeLayer new"
  by (simp add: commit_def Let_def mouseEffect_def mouseEffectCleanup_def
      particleEffect_def particleEffectCleanup_def)

lemma step_activeInRange:
  assumes "activeInRange (layerCount e) v" and "indexInRange (layerCount e) ev"
  shows "activeInRange (layerCount e) (step e v ev)"
  using assms
  by (cases ev)
    (auto simp: activeInRange_def goToLayer_def handleNext_def handlePrev_def triggerWarp_def
      handleMouseMove_def unmount_def mouseEffectCleanup_def particleEffectCleanup_def Let_def)

lemma run_activeInRange:
  assumes "activeInRange (layerCount e) v" and "list_all (indexInRange (layerCount e)) evs"
  shows "list_all (activeInRange (layerCount e)) (run e v evs)"
  using assms
proof (induction evs arbitrary: v)
  case Nil
  then show ?case by simp
next
  case (Cons ev evs)
  then show ?case by (simp add: step_activeInRange)
qed

lemma run_nonempty: "run e v evs = v # tl (run e v evs)"
  by (cases evs) simp_all

text \<open>
  C1 (as the code has it). \<open>goToLayer\<close> does not test its index against the number of
  layers: it ignores a call only when the index is the active one or a warp is running.
  Every call site of the view passes the position of an existing layer, and
  \<open>handleNext\<close> and \<open>handlePrev\<close> test the bounds themselves. So: starting from the
  mounted view, along every sequence of events in which each \<open>goToLayer\<close> index lies in
  \<open>[0, layerCount)\<close>, the active layer stays in \<open>[0, layerCount)\<close> in every state
  the sequence goes through, provided there is at least one layer.
\<close>

theorem activeLayer_stays_in_range:
  assumes "0 < layerCount e" and "list_all (indexInRange (layerCount e)) evs"
  shows "list_all (activeInRange (layerCount e)) (run e mountView evs)"
proof -
  have "activeInRange (layerCount e) mountView"
    using assms(1) by (simp add: activeInRange_def mountView_def)
  then show ?thesis
    using assms(2) by (rule run_activeInRange)
qed

text \<open>C1, an instance: six layers, moves in both directions with the timeouts between them.\<close>

theorem activeLayer_stays_in_range_witness:
  "0 < layerCount desktop
   \<and> list_all (indexInRange (layerCount desktop))
         [Enter, GoTo 3, Next, Timeout, Next, GoTo 5, Timeout, Prev]
   \<and> list_all (activeInRange (layerCount desktop))
         (run desktop mountView [Enter, GoTo 3, Next, Timeout, Next, GoTo 5, Timeout, Prev])"
proof (intro conjI)
  show h1: "0 < layerCount desktop"
    by (simp add: desktop_def)
  show h2: "list_all (indexInRange (layerCount desktop))
         [Enter, GoTo 3, Next, Timeout, Next, GoTo 5, Timeout, Prev]"
    by (simp add: desktop_def)
  show "list_all (activeInRange (layerCount desktop))
         (run desktop mountView [Enter, GoTo 3, Next, Timeout, Next, GoTo 5, Timeout, Prev])"
    using h1 h2 by (rule activeLayer_stays_in_range)
qed

text \<open>
  C1 as stated fails: with six layers, \<open>goToLayer(7)\<close> on the freshly mounted view is
  not ignored; it starts a warp and makes 7 the active layer.
\<close>

theorem goToLayer_out_of_range_counterexample:
  "layerCount desktop = 6
   \<and> activeLayer (step desktop mountView (GoTo 7)) = 7
   \<and> isWarping (step desktop mountView (GoTo 7))
   \<and> \<not> activeInRange 6 (step desktop mountView (GoTo 7))"
  by (simp add: desktop_def goToLayer_def triggerWarp_def mountView_def activeInRange_def
      commit_def particleEffect_def particleEffectCleanup_def Let_def)

section \<open>The proximity trigger\<close>

lemma step_MouseMove:
  assumes "mousemoveListener v" and "\<not> isNavOpen v"
  shows "step e v (MouseMove c) = v\<lparr>isHoveringEdge := proximity (isHoveringEdge v) c\<rparr>"
  using assms by (simp add: handleMouseMove_def commit_def)

lemma run_MouseMove:
  assumes "mousemoveListener v" and "\<not> isNavOpen v"
  shows "map isHoveringEdge (tl (run e v (map MouseMove cs))) = visibilitySeq (isHoveringEdge v) cs"
  using assms
proof (induction cs arbitrary: v)
  case Nil
  then show ?case by simp
next
  case (Cons c cs)
  let ?v = "v\<lparr>isHoveringEdge := proximity (isHoveringEdge v) c\<rparr>"
  have s: "step e v (MouseMove c) = ?v"
    using Cons.prems by (rule step_MouseMove)
  have ih: "map isHoveringEdge (tl (run e ?v (map MouseMove cs))) = visibilitySeq (isHoveringEdge ?v) cs"
    using Cons.prems by (intro Cons.IH) simp_all
  have "tl (run e v (map MouseMove (c # cs))) = run e ?v (map MouseMove cs)"
    using s by simp
  also have "\<dots> = ?v # tl (run e ?v (map MouseMove cs))"
    by (rule run_nonempty)
  finally have "map isHoveringEdge (tl (run e v (map MouseMove (c # cs))))
      = isHoveringEdge ?v # map isHoveringEdge (tl (run e ?v (map MouseMove cs)))"
    by simp
  then show ?case
    using ih by (simp del: proximity.simps)
qed

lemma entered_view:
  "mousemoveListener (final desktop [Enter])" "\<not> isNavOpen (final desktop [Enter])"
  "\<not> isHoveringEdge (final desktop [Enter])"
  by (simp_all add: final_def desktop_def mountView_def commit_def mouseEffect_def
      mouseEffectCleanup_def particleEffect_def particleEffectCleanup_def)

text \<open>
  C9. The trigger is enabled while its listener is registered and the navigation panel
  is not open; the specification disables it while the panel is pinned open, which is the
  early return of \<open>handleMouseMove\<close>. While it is enabled, a pointer move at
  \<open>clientX\<close> sets \<open>isHoveringEdge\<close> to true when \<open>clientX < 40\<close>, to false when
  \<open>clientX > 120\<close>, and leaves it as it was in between; so a sequence of pointer moves
  gives the visibility sequence of the hysteresis rule.
\<close>

theorem proximity_hysteresis_when_closed:
  assumes "mousemoveListener v" and "\<not> isNavOpen v"
  shows "isHoveringEdge (step e v (MouseMove c))
       = (if c < 40 then True else if c > 120 then False else isHoveringEdge v)
    \<and> map isHoveringEdge (tl (run e v (map MouseMove cs))) = visibilitySeq (isHoveringEdge v) cs"
proof
  have "step e v (MouseMove c) = v\<lparr>isHoveringEdge := proximity (isHoveringEdge v) c\<rparr>"
    using assms by (rule step_MouseMove)
  then show "isHoveringEdge (step e v (MouseMove c))
      = (if c < 40 then True else if c > 120 then False else isHoveringEdge v)"
    by (simp del: step.simps)
  show "map isHoveringEdge (tl (run e v (map MouseMove cs))) = visibilitySeq (isHoveringEdge v) cs"
    using assms by (rule run_MouseMove)
qed

text \<open>
  C9, the scenario of the specification: in the view just entered, the pointer at
  10, 60, 130, 70 gives the visibilities true, true, false, false.
\<close>

theorem proximity_hysteresis_when_closed_witness:
  "mousemoveListener (final desktop [Enter]) \<and> \<not> isNavOpen (final desktop [Enter])
   \<and> map isHoveringEdge (tl (run desktop (final desktop [Enter]) (map MouseMove [10, 60, 130, 70])))
       = [True, True, False, False]"
proof -
  have "map isHoveringEdge (tl (run desktop (final desktop [Enter]) (map MouseMove [10, 60, 130, 70])))
      = visibilitySeq (isHoveringEdge (final desktop [Enter])) [10, 60, 130, 70]"
    using proximity_hysteresis_when_closed [OF entered_view(1) entered_view(2)] by blast
  also have "\<dots> = [True, True, False, False]"
    by (simp add: entered_view(3))
  finally show ?thesis
    using entered_view(1) entered_view(2) by blast
qed

text \<open>
  While the navigation panel is open the trigger is disabled: after the pointer at 10
  has shown the handle and a click on it has opened the panel, a pointer move at 130
  leaves \<open>isHoveringEdge\<close> as it was.
\<close>

lemma panel_open_disables_trigger:
  "isNavOpen (final desktop [Enter, MouseMove 10, ToggleNav])
   \<and> isHoveringEdge (final desktop [Enter, MouseMove 10, ToggleNav, MouseMove 130])"
  by (simp add: final_def desktop_def mountView_def commit_def mouseEffect_def
      mouseEffectCleanup_def particleEffect_def particleEffectCleanup_def handleMouseMove_def)

section \<open>Teardown\<close>

text \<open>
  Unmounting cancels the pending animation frame and removes both listeners, whatever
  the state; it leaves the pending timeouts as they are.
\<close>

lemma unmount_releases:
  assumes "mounted v"
  shows "\<not> frameRequest (step e v Unmount)" and "\<not> mousemoveListener (step e v Unmount)"
    and "\<not> resizeListener (step e v Unmount)" and "\<not> mounted (step e v Unmount)"
    and "timeouts (step e v Unmount) = timeouts v"
  using assms by (simp_all add: unmount_def mouseEffectCleanup_def particleEffectCleanup_def)

lemma torndown_step:
  assumes "torndown u v"
  shows "torndown u (step e v ev)"
  using assms by (cases ev) (auto simp: torndown_def Let_def)

text \<open>
  After teardown no frame runs \<open>draw\<close> again and no event changes the React state; the
  one thing that still happens is that pending timeouts expire.
\<close>

lemma torndown_run:
  assumes "torndown u v"
  shows "list_all (torndown u) (run e v evs)"
  using assms
proof (induction evs arbitrary: v)
  case Nil
  then show ?case by simp
next
  case (Cons ev evs)
  then show ?case by (simp add: torndown_step)
qed

lemma torndown_unmount:
  assumes "mounted v"
  shows "torndown (step e v Unmount) (step e v Unmount)"
  using assms by (simp add: torndown_def unmount_def mouseEffectCleanup_def particleEffectCleanup_def)

lemma unmounted_view:
  assumes "mounted v"
  shows "step e v Unmount = v\<lparr>mounted := False, mousemoveListener := False,
     resizeListener := False, frameRequest := False\<rparr>"
  using assms by (simp add: unmount_def mouseEffectCleanup_def particleEffectCleanup_def)

lemma warping_view:
  "mounted (final desktop [Enter, GoTo 1])" "isWarping (final desktop [Enter, GoTo 1])"
  "timeouts (final desktop [Enter, GoTo 1]) = 1"
  by (simp_all add: final_def desktop_def mountView_def commit_def mouseEffect_def
      mouseEffectCleanup_def particleEffect_def particleEffectCleanup_def goToLayer_def
      triggerWarp_def)

text \<open>
  C3 (as the code has it). Unmounting a view cancels its pending animation frame and
  removes its listeners. It does not cancel the timeout of a warp: \<open>triggerWarp\<close>
  keeps no handle to it, and the timeouts pending before the teardown are pending after
  it. But from the teardown on no event changes the view again, a late expiry included:
  in every state that follows, the view is unmounted with no frame requested and no
  listener, \<open>draw\<close> has run no further time, and \<open>isWarping\<close>, the active layer
  and the rest of the React state are as they were at the teardown; the pending
  timeouts can only expire.
\<close>

theorem teardown_freezes_view:
  assumes "mounted v"
  shows "timeouts (step e v Unmount) = timeouts v
    \<and> list_all (\<lambda>w. \<not> mounted w \<and> \<not> frameRequest w \<and> \<not> mousemoveListener w
            \<and> \<not> resizeListener w \<and> drawCount w = drawCount v
            \<and> hasEntered w = hasEntered v \<and> activeLayer w = activeLayer v
            \<and> isWarping w = isWarping v \<and> isNavOpen w = isNavOpen v
            \<and> isHoveringEdge w = isHoveringEdge v \<and> timeouts w \<le> timeouts v)
         (run e (step e v Unmount) evs)"
proof
  let ?u = "step e v Unmount"
  have u: "?u = v\<lparr>mounted := False, mousemoveListener := False,
     resizeListener := False, frameRequest := False\<rparr>"
    using assms by (rule unmounted_view)
  then show "timeouts ?u = timeouts v"
    by (simp del: step.simps)
  have "list_all (torndown ?u) (run e ?u evs)"
    using assms by (intro torndown_run torndown_unmount)
  moreover have "\<not> mounted w \<and> \<not> frameRequest w \<and> \<not> mousemoveListener w
        \<and> \<not> resizeListener w \<and> drawCount w = drawCount v
        \<and> hasEntered w = hasEntered v \<and> activeLayer w = activeLayer v
        \<and> isWarping w = isWarping v \<and> isNavOpen w = isNavOpen v
        \<and> isHoveringEdge w = isHoveringEdge v \<and> timeouts w \<le> timeouts v"
    if t: "torndown ?u w" for w
  proof -
    have eq: "w\<lparr>timeouts := 0\<rparr> = ?u\<lparr>timeouts := 0\<rparr>"
      using t by (simp add: torndown_def)
    have "f (w\<lparr>timeouts := 0\<rparr>) = f (?u\<lparr>timeouts := 0\<rparr>)" for f :: "view \<Rightarrow> 'a"
      using eq by (rule arg_cong)
    from this [of resizeListener] this [of drawCount] this [of hasEntered] this [of activeLayer]
      this [of isWarping] this [of isNavOpen] this [of isHoveringEdge]
    have "resizeListener w = resizeListener ?u" "drawCount w = drawCount ?u"
      "hasEntered w = hasEntered ?u" "activeLayer w = activeLayer ?u"
      "isWarping w = isWarping ?u" "isNavOpen w = isNavOpen ?u"
      "isHoveringEdge w = isHoveringEdge ?u"
      by simp_all
    moreover have "\<not> mounted w" "\<not> frameRequest w" "\<not> mousemoveListener w"
      "timeouts w \<le> timeouts ?u"
      using t by (simp_all add: torndown_def)
    ultimately show ?thesis
      by (simp add: u del: step.simps)
  qed
  ultimately show "list_all (\<lambda>w. \<not> mounted w \<and> \<not> frameRequest w \<and> \<not> mousemoveListener w
            \<and> \<not> resizeListener w \<and> drawCount w = drawCount v
            \<and> hasEntered w = hasEntered v \<and> activeLayer w = activeLayer v
            \<and> isWarping w = isWarping v \<and> isNavOpen w = isNavOpen v
            \<and> isHoveringEdge w = isHoveringEdge v \<and> timeouts w \<le> timeouts v)
         (run e ?u evs)"
    unfolding list_all_iff by blast
qed

text \<open>
  C3, an instance: the view is entered, \<open>goToLayer(1)\<close> starts a warp, and the view is
  unmounted while warping. Frames, the late timeout, a click and a pointer move follow:
  no frame is requested, \<open>draw\<close> does not run again, and \<open>isWarping\<close> stays true.
\<close>

theorem teardown_freezes_view_witness:
  "mounted (final desktop [Enter, GoTo 1])
   \<and> isWarping (final desktop [Enter, GoTo 1])
   \<and> list_all (\<lambda>w. \<not> frameRequest w \<and> drawCount w = drawCount (final desktop [Enter, GoTo 1])
            \<and> isWarping w \<and> activeLayer w = activeLayer (final desktop [Enter, GoTo 1]))
        (run desktop (step desktop (final desktop [Enter, GoTo 1]) Unmount)
           [Frame, Timeout, GoTo 2, MouseMove 10, Frame])"
proof -
  have "list_all (\<lambda>w. \<not> frameRequest w \<and> drawCount w = drawCount (final desktop [Enter, GoTo 1])
            \<and> isWarping w \<and> activeLayer w = activeLayer (final desktop [Enter, GoTo 1]))
        (run desktop (step desktop (final desktop [Enter, GoTo 1]) Unmount)
           [Frame, Timeout, GoTo 2, MouseMove 10, Frame])"
    using teardown_freezes_view [OF warping_view(1), of desktop "[Frame, Timeout, GoTo 2, MouseMove 10, Frame]"]
      warping_view(2)
    unfolding list_all_iff by blast
  then show ?thesis
    using warping_view(1) warping_view(2) by blast
qed

text \<open>
  C3 as stated fails for the timer: the view is entered, \<open>goToLayer(1)\<close> starts a warp
  and its timeout, and the view is unmounted before the timeout expires. The timeout is
  not cancelled: it is still pending after the teardown, and it expires later.
\<close>

theorem teardown_timer_not_cancelled_counterexample:
  "\<not> mounted (final desktop [Enter, GoTo 1, Unmount])
   \<and> timeouts (final desktop [Enter, GoTo 1, Unmount]) = 1
   \<and> timeouts (final desktop [Enter, GoTo 1, Unmount, Timeout]) = 0"
  by (simp add: final_def desktop_def mountView_def commit_def mouseEffect_def
      mouseEffectCleanup_def particleEffect_def particleEffectCleanup_def goToLayer_def
      triggerWarp_def unmount_def)

section \<open>Grouping\<close>

lemma map_of_tabulate: "map_of (tabulate h ks) k = (if k \<in> set ks then Some (h k) else None)"
  by (induction ks) (auto simp: tabulate_def)

lemma tabulate_cong: "(\<And>k. k \<in> set ks \<Longrightarrow> f k = g k) \<Longrightarrow> tabulate f ks = tabulate g ks"
  by (simp add: tabulate_def)

lemma setProp_tabulate_in:
  "k \<in> set ks \<Longrightarrow> distinct ks \<Longrightarrow> setProp k v (tabulate h ks) = tabulate (h(k := v)) ks"
  by (induction ks) (auto simp: tabulate_def)

lemma setProp_tabulate_notin:
  "k \<notin> set ks \<Longrightarrow> setProp k v (tabulate h ks) = tabulate (h(k := v)) (ks @ [k])"
  by (induction ks) (auto simp: tabulate_def)

lemma getProp_tabulate:
  "getProp (tabulate h ks) k =
     (if k \<in> set ks then Array (h k)
      else if k \<in> set objectPrototypeKeys then Inherited else Undefined)"
  by (simp add: getProp_def map_of_tabulate)

lemma addBook_tabulate:
  assumes "distinct ks" and "set ks \<inter> set objectPrototypeKeys = {}"
  shows "addBook (tabulate h ks) b =
     (if categoryOf b \<in> set objectPrototypeKeys then Inl TypeError
      else Inr (tabulate (h(categoryOf b := (if categoryOf b \<in> set ks then h (categoryOf b) else []) @ [b]))
                 (if categoryOf b \<in> set ks then ks else ks @ [categoryOf b])))"
proof (cases "categoryOf b \<in> set ks")
  case True
  then show ?thesis
    using assms by (auto simp: addBook_def Let_def getProp_tabulate setProp_tabulate_in)
next
  case False
  show ?thesis
  proof (cases "categoryOf b \<in> set objectPrototypeKeys")
    case True
    then show ?thesis
      using False by (simp add: addBook_def Let_def getProp_tabulate)
  next
    case notproto: False
    have d: "distinct (ks @ [categoryOf b])"
      using False assms(1) by simp
    show ?thesis
      using False notproto d
      by (simp add: addBook_def Let_def getProp_tabulate setProp_tabulate_notin setProp_tabulate_in)
  qed
qed

lemma addBooks_tabulate:
  assumes "distinct ks" and "set ks \<inter> set objectPrototypeKeys = {}"
  shows "addBooks (tabulate h ks) bs =
     (if \<exists>b\<in>set bs. categoryOf b \<in> set objectPrototypeKeys then Inl TypeError
      else Inr (tabulate (\<lambda>k. (if k \<in> set ks then h k else []) @ bucketOf bs k)
                 (firstSeenFrom ks (map categoryOf bs))))"
  using assms
proof (induction bs arbitrary: ks h)
  case Nil
  show ?case
    by (auto simp: bucketOf_def intro: tabulate_cong)
next
  case (Cons b bs)
  let ?c = "categoryOf b"
  show ?case
  proof (cases "?c \<in> set objectPrototypeKeys")
    case True
    then show ?thesis
      using Cons.prems by (simp add: addBook_tabulate)
  next
    case False
    let ?ks = "if ?c \<in> set ks then ks else ks @ [?c]"
    let ?h = "h(?c := (if ?c \<in> set ks then h ?c else []) @ [b])"
    have step: "addBook (tabulate h ks) b = Inr (tabulate ?h ?ks)"
      using Cons.prems False by (simp add: addBook_tabulate)
    have d: "distinct ?ks" and p: "set ?ks \<inter> set objectPrototypeKeys = {}"
      using Cons.prems False by auto
    have ih: "addBooks (tabulate ?h ?ks) bs =
       (if \<exists>b\<in>set bs. categoryOf b \<in> set objectPrototypeKeys then Inl TypeError
        else Inr (tabulate (\<lambda>k. (if k \<in> set ?ks then ?h k else []) @ bucketOf bs k)
                   (firstSeenFrom ?ks (map categoryOf bs))))"
      using d p by (rule Cons.IH)
    have eq: "tabulate (\<lambda>k. (if k \<in> set ?ks then ?h k else []) @ bucketOf bs k) ns
            = tabulate (\<lambda>k. (if k \<in> set ks then h k else []) @ bucketOf (b # bs) k) ns" for ns
      by (rule tabulate_cong) (auto simp: bucketOf_def)
    show ?thesis
      using False by (simp add: step ih eq del: fun_upd_apply)
  qed
qed

lemma set_firstSeenFrom: "set (firstSeenFrom ks cs) = set ks \<union> set cs"
  by (induction cs arbitrary: ks) auto

lemma distinct_firstSeenFrom: "distinct ks \<Longrightarrow> distinct (firstSeenFrom ks cs)"
  by (induction cs arbitrary: ks) auto

lemma initial_groups:
  "foldl (\<lambda>g c. setProp c [] g) [] defaultCats = tabulate (\<lambda>k. []) defaultCats"
  by (simp add: defaultCats_def tabulate_def)

lemma distinct_defaultCats: "distinct defaultCats"
  by (simp add: defaultCats_def)

lemma defaultCats_not_inherited: "set defaultCats \<inter> set objectPrototypeKeys = {}"
  by (simp add: defaultCats_def objectPrototypeKeys_def)

lemma defaultCats_not_index: "c \<in> set defaultCats \<Longrightarrow> \<not> isArrayIndex c"
  by (auto simp: defaultCats_def isArrayIndex_def isDigit_def)

lemma insertBy_byCount:
  "insertBy byCount a xs = insort_key (\<lambda>kv. - int (length (snd kv))) a xs"
  by (induction xs) (auto simp: byCount_def)

lemma sortBy_byCount: "sortBy byCount xs = sort_key (\<lambda>kv. - int (length (snd kv))) xs"
  by (induction xs) (simp_all add: sortBy_def insertBy_byCount)

lemma insort_key_tabulate:
  "insort_key (\<lambda>kv. f (fst kv)) (k, h k) (tabulate h ks) = tabulate h (insort_key f k ks)"
  by (induction ks) (auto simp: tabulate_def)

lemma sort_key_tabulate:
  "sort_key (\<lambda>kv. f (fst kv)) (tabulate h ks) = tabulate h (sort_key f ks)"
proof (induction ks)
  case Nil
  show ?case by (simp add: tabulate_def)
next
  case (Cons k ks)
  have "sort_key (\<lambda>kv. f (fst kv)) (tabulate h (k # ks))
      = insort_key (\<lambda>kv. f (fst kv)) (k, h k) (sort_key (\<lambda>kv. f (fst kv)) (tabulate h ks))"
    by (simp add: tabulate_def)
  also have "\<dots> = tabulate h (insort_key f k (sort_key f ks))"
    by (simp add: Cons.IH insort_key_tabulate)
  finally show ?case by simp
qed

lemma filter_tabulate:
  "filter (\<lambda>kv. P (fst kv)) (tabulate h ks) = tabulate h (filter P ks)"
  by (induction ks) (auto simp: tabulate_def)

lemma tabulate_append: "tabulate h (xs @ ys) = tabulate h xs @ tabulate h ys"
  by (simp add: tabulate_def)

lemma entries_tabulate:
  "entries (tabulate h ks) =
     tabulate h (sort_key indexValue (filter isArrayIndex ks) @ filter (\<lambda>k. \<not> isArrayIndex k) ks)"
  by (simp add: entries_def filter_tabulate [of isArrayIndex]
      filter_tabulate [of "\<lambda>k. \<not> isArrayIndex k"] sort_key_tabulate tabulate_append)

lemma booksByCategory_eq:
  "booksByCategory bs =
     (if \<exists>b\<in>set bs. categoryOf b \<in> set objectPrototypeKeys then Inl TypeError
      else Inr (sort_key (\<lambda>kv. - int (length (snd kv))) (tabulate (bucketOf bs) (keyOrder bs))))"
proof -
  have "tabulate (\<lambda>k. (if k \<in> set defaultCats then [] else []) @ bucketOf bs k) ns
      = tabulate (bucketOf bs) ns" for ns
    by (rule tabulate_cong) simp
  then show ?thesis
    by (simp add: booksByCategory_def initial_groups
        addBooks_tabulate [OF distinct_defaultCats defaultCats_not_inherited]
        entries_tabulate sortBy_byCount keyOrder_def Let_def)
qed

lemma snd_tabulate: "kv \<in> set (tabulate h ks) \<Longrightarrow> snd kv = h (fst kv)"
  by (auto simp: tabulate_def)

lemma map_fst_tabulate: "map fst (tabulate h ks) = ks"
  by (simp add: tabulate_def comp_def)

lemma keyOrder_no_index:
  assumes "\<forall>b\<in>set bs. \<not> isArrayIndex (categoryOf b)"
  shows "keyOrder bs = firstSeenFrom defaultCats (map categoryOf bs)"
proof -
  have "\<forall>c\<in>set (firstSeenFrom defaultCats (map categoryOf bs)). \<not> isArrayIndex c"
    using assms defaultCats_not_index by (auto simp: set_firstSeenFrom)
  then show ?thesis
    by (simp add: keyOrder_def Let_def filter_False filter_True)
qed

lemma mset_keyOrder: "mset (keyOrder bs) = mset (firstSeenFrom defaultCats (map categoryOf bs))"
  by (simp add: keyOrder_def Let_def)

lemma sum_buckets:
  assumes "distinct ns" and "\<forall>b\<in>set bs. categoryOf b \<in> set ns"
  shows "(\<Sum>k\<leftarrow>ns. mset (bucketOf bs k)) = mset bs"
  using assms(2)
proof (induction bs)
  case Nil
  show ?case by (simp add: bucketOf_def)
next
  case (Cons b bs)
  have "(\<Sum>k\<leftarrow>ns. mset (bucketOf (b # bs) k))
      = (\<Sum>k\<leftarrow>ns. (if k = categoryOf b then {#b#} else {#}) + mset (bucketOf bs k))"
    by (intro arg_cong [where f = sum_list] map_cong) (auto simp: bucketOf_def)
  also have "\<dots> = (\<Sum>k\<leftarrow>ns. if k = categoryOf b then {#b#} else {#}) + (\<Sum>k\<leftarrow>ns. mset (bucketOf bs k))"
    by (simp add: sum_list_addf)
  also have "(\<Sum>k\<leftarrow>ns. if k = categoryOf b then {#b#} else {#}) = {#b#}"
    using assms(1) Cons.prems
    by (simp add: sum_list_distinct_conv_sum_set)
  finally show ?case
    using Cons by simp
qed

lemma booksByCategory_mset:
  assumes "booksByCategory bs = Inr r"
  shows "mset (concat (map snd r)) = mset bs"
proof -
  let ?names = "firstSeenFrom defaultCats (map categoryOf bs)"
  have r: "r = sort_key (\<lambda>kv. - int (length (snd kv))) (tabulate (bucketOf bs) (keyOrder bs))"
    using assms by (simp add: booksByCategory_eq split: if_splits)
  have "mset (concat (map snd r)) = (\<Sum>kv\<in>#mset r. mset (snd kv))"
    by (simp add: mset_concat sum_mset_sum_list [symmetric] comp_def)
  also have "mset r = mset (tabulate (bucketOf bs) (keyOrder bs))"
    by (simp add: r)
  also have "\<dots> = image_mset (\<lambda>k. (k, bucketOf bs k)) (mset ?names)"
    unfolding tabulate_def mset_map mset_keyOrder ..
  also have "(\<Sum>kv\<in>#image_mset (\<lambda>k. (k, bucketOf bs k)) (mset ?names). mset (snd kv))
      = (\<Sum>k\<leftarrow>?names. mset (bucketOf bs k))"
    by (simp add: image_mset.compositionality comp_def flip: sum_mset_sum_list)
  also have "\<dots> = mset bs"
    by (rule sum_buckets) (simp_all add: distinct_firstSeenFrom distinct_defaultCats set_firstSeenFrom)
  finally show ?thesis .
qed

lemma booksByCategory_bucket:
  assumes "booksByCategory bs = Inr r" and "kv \<in> set r"
  shows "snd kv = bucketOf bs (fst kv)"
proof -
  have r: "r = sort_key (\<lambda>kv. - int (length (snd kv))) (tabulate (bucketOf bs) (keyOrder bs))"
    using assms(1) by (simp add: booksByCategory_eq split: if_splits)
  then have "kv \<in> set (tabulate (bucketOf bs) (keyOrder bs))"
    using assms(2) by simp
  then show ?thesis by (rule snd_tabulate)
qed

text \<open>
  Where the grouping returns, every book is in exactly one bucket: the buckets together
  hold the input as a multiset, each bucket holds the books of its category in input
  order, and a book without a category is in the bucket of the fallback name.
\<close>

lemma booksByCategory_returns:
  "(\<exists>r. booksByCategory bs = Inr r) \<longleftrightarrow> (\<forall>b\<in>set bs. categoryOf b \<notin> set objectPrototypeKeys)"
  by (auto simp: booksByCategory_eq)

lemma missing_category: "category b = None \<Longrightarrow> categoryOf b = uncategorized"
  by (simp add: categoryOf_def)

text \<open>The six default buckets are always there: a grouping that returns has at least six.\<close>

lemma length_firstSeenFrom: "length ks \<le> length (firstSeenFrom ks cs)"
proof (induction cs arbitrary: ks)
  case Nil
  show ?case by simp
next
  case (Cons c cs)
  have "length ks \<le> length (if c \<in> set ks then ks else ks @ [c])"
    by simp
  also have "\<dots> \<le> length (firstSeenFrom (if c \<in> set ks then ks else ks @ [c]) cs)"
    by (rule Cons.IH)
  finally show ?case by simp
qed

lemma bucketCount_at_least_six:
  assumes "bucketCount bs = Some n"
  shows "6 \<le> n"
proof -
  have "n = length (keyOrder bs)"
    using assms by (auto simp: bucketCount_def booksByCategory_eq tabulate_def split: if_splits)
  also have "\<dots> = length (firstSeenFrom defaultCats (map categoryOf bs))"
    using mset_keyOrder [of bs] by (rule mset_eq_length)
  finally show ?thesis
    using length_firstSeenFrom [of defaultCats "map categoryOf bs"] by (simp add: defaultCats_def)
qed

text \<open>
  C2 (as the code has it). \<open>groups\<close> is seeded with the six default categories before
  any book is looked at, so the empty list gives six buckets, one for each default
  category in seed order, each with no books. Navigation then moves among six empty
  layers: in the mounted view \<open>handleNext\<close> goes from layer 0 to layer 1.
\<close>

theorem empty_list_gives_default_buckets:
  "booksByCategory [] = Inr (map (\<lambda>c. (c, [])) defaultCats)
   \<and> bucketCount [] = Some 6
   \<and> layerCount desktop = 6
   \<and> activeLayer (step desktop mountView Next) = 1"
  by (simp add: bucketCount_def booksByCategory_eq keyOrder_def tabulate_def bucketOf_def
      defaultCats_def isArrayIndex_def isDigit_def desktop_def mountView_def handleNext_def
      goToLayer_def triggerWarp_def Let_def)

text \<open>C2 as stated fails: the empty list does not give zero buckets, and \<open>handleNext\<close>
  in the mounted view over those buckets is not a no-op.\<close>

theorem empty_list_zero_buckets_counterexample:
  "bucketCount [] \<noteq> Some 0 \<and> step desktop mountView Next \<noteq> mountView"
proof -
  have "bucketCount [] = Some 6"
    by (simp add: bucketCount_def booksByCategory_eq keyOrder_def tabulate_def
        defaultCats_def isArrayIndex_def isDigit_def Let_def)
  moreover have "activeLayer (step desktop mountView Next) \<noteq> activeLayer mountView"
    by (simp add: desktop_def mountView_def handleNext_def goToLayer_def triggerWarp_def Let_def)
  ultimately show ?thesis
    by (auto simp del: step.simps)
qed

text \<open>
  C5, at the failing input: one book whose category is \<open>constructor\<close>. \<open>groups\<close> has
  no own property of that name, but \<open>groups["constructor"]\<close> is the inherited function
  \<open>Object\<close>, which is truthy: no array is created, \<open>groups[cat].push\<close> is not a
  function, and the grouping throws instead of returning buckets that hold the book.
\<close>

theorem inherited_category_throws:
  "booksByCategory [exampleBook 1 (Some (map of_char ''constructor''))] = Inl TypeError
   \<and> bucketCount [exampleBook 1 (Some (map of_char ''constructor''))] = None"
  by (simp add: bucketCount_def booksByCategory_eq categoryOf_def exampleBook_def
      objectPrototypeKeys_def)

text \<open>
  C6 (as the code has it). Whenever the grouping returns, the buckets are in descending
  order of their number of books, and buckets with the same number of books are in the
  order in which \<open>Object.entries\<close> lists the keys of \<open>groups\<close>: the names that are
  array indices first, in ascending numeric order, then the other names in the order in
  which they were first seen, the default categories in seed order before the names
  found in the books. When no category is an array index this is the first-seen order.
\<close>

theorem buckets_sorted_ties_in_key_order:
  assumes "booksByCategory bs = Inr r"
  shows "sorted_wrt (\<lambda>a b. length (snd b) \<le> length (snd a)) r
    \<and> (\<forall>n. map fst (filter (\<lambda>kv. length (snd kv) = n) r)
            = filter (\<lambda>c. length (bucketOf bs c) = n) (keyOrder bs))
    \<and> ((\<forall>b\<in>set bs. \<not> isArrayIndex (categoryOf b))
         \<longrightarrow> keyOrder bs = firstSeenFrom defaultCats (map categoryOf bs))"
proof (intro conjI allI impI)
  let ?f = "\<lambda>kv::jsstring \<times> book list. - int (length (snd kv))"
  have r: "r = sort_key ?f (tabulate (bucketOf bs) (keyOrder bs))"
    using assms by (simp add: booksByCategory_eq split: if_splits)
  have "sorted (map ?f r)"
    by (simp add: r)
  then show "sorted_wrt (\<lambda>a b. length (snd b) \<le> length (snd a)) r"
    by (simp add: sorted_map)
  fix n
  have "filter (\<lambda>kv. length (snd kv) = n) r = filter (\<lambda>kv. ?f kv = - int n) r"
    by simp
  also have "\<dots> = filter (\<lambda>kv. ?f kv = - int n) (tabulate (bucketOf bs) (keyOrder bs))"
    unfolding r by (rule sort_key_stable)
  also have "\<dots> = filter (\<lambda>kv. length (bucketOf bs (fst kv)) = n) (tabulate (bucketOf bs) (keyOrder bs))"
    by (rule filter_cong) (auto dest: snd_tabulate)
  also have "\<dots> = tabulate (bucketOf bs) (filter (\<lambda>c. length (bucketOf bs c) = n) (keyOrder bs))"
    by (rule filter_tabulate)
  finally show "map fst (filter (\<lambda>kv. length (snd kv) = n) r)
      = filter (\<lambda>c. length (bucketOf bs c) = n) (keyOrder bs)"
    by (simp add: map_fst_tabulate)
next
  assume "\<forall>b\<in>set bs. \<not> isArrayIndex (categoryOf b)"
  then show "keyOrder bs = firstSeenFrom defaultCats (map categoryOf bs)"
    by (rule keyOrder_no_index)
qed

text \<open>
  C6, an instance: five books in the first default category and two in the second
  give these two buckets first, in this order, then the four empty default buckets.
\<close>

theorem buckets_sorted_ties_in_key_order_witness:
  "booksByCategory
     [exampleBook 1 (Some (defaultCats ! 1)), exampleBook 2 (Some (defaultCats ! 0)),
      exampleBook 3 (Some (defaultCats ! 0)), exampleBook 4 (Some (defaultCats ! 1)),
      exampleBook 5 (Some (defaultCats ! 0)), exampleBook 6 (Some (defaultCats ! 0)),
      exampleBook 7 (Some (defaultCats ! 0))]
     = Inr [(defaultCats ! 0,
              [exampleBook 2 (Some (defaultCats ! 0)), exampleBook 3 (Some (defaultCats ! 0)),
               exampleBook 5 (Some (defaultCats ! 0)), exampleBook 6 (Some (defaultCats ! 0)),
               exampleBook 7 (Some (defaultCats ! 0))]),
            (defaultCats ! 1,
              [exampleBook 1 (Some (defaultCats ! 1)), exampleBook 4 (Some (defaultCats ! 1))]),
            (defaultCats ! 2, []), (defaultCats ! 3, []), (defaultCats ! 4, []),
            (defaultCats ! 5, [])]
   \<and> sorted_wrt (\<lambda>a b. length (snd b) \<le> length (snd a))
        [(defaultCats ! 0,
              [exampleBook 2 (Some (defaultCats ! 0)), exampleBook 3 (Some (defaultCats ! 0)),
               exampleBook 5 (Some (defaultCats ! 0)), exampleBook 6 (Some (defaultCats ! 0)),
               exampleBook 7 (Some (defaultCats ! 0))]),
            (defaultCats ! 1,
              [exampleBook 1 (Some (defaultCats ! 1)), exampleBook 4 (Some (defaultCats ! 1))]),
            (defaultCats ! 2, []), (defaultCats ! 3, []), (defaultCats ! 4, []),
            (defaultCats ! 5, [])]"
proof -
  let ?bs = "[exampleBook 1 (Some (defaultCats ! 1)), exampleBook 2 (Some (defaultCats ! 0)),
      exampleBook 3 (Some (defaultCats ! 0)), exampleBook 4 (Some (defaultCats ! 1)),
      exampleBook 5 (Some (defaultCats ! 0)), exampleBook 6 (Some (defaultCats ! 0)),
      exampleBook 7 (Some (defaultCats ! 0))]"
  let ?r = "[(defaultCats ! 0,
              [exampleBook 2 (Some (defaultCats ! 0)), exampleBook 3 (Some (defaultCats ! 0)),
               exampleBook 5 (Some (defaultCats ! 0)), exampleBook 6 (Some (defaultCats ! 0)),
               exampleBook 7 (Some (defaultCats ! 0))]),
            (defaultCats ! 1,
              [exampleBook 1 (Some (defaultCats ! 1)), exampleBook 4 (Some (defaultCats ! 1))]),
            (defaultCats ! 2, []), (defaultCats ! 3, []), (defaultCats ! 4, []),
            (defaultCats ! 5, [])]"
  have h: "booksByCategory ?bs = Inr ?r"
    by (simp add: booksByCategory_def addBook_def getProp_def categoryOf_def exampleBook_def
        defaultCats_def objectPrototypeKeys_def entries_def isArrayIndex_def isDigit_def
        sortBy_def byCount_def Let_def)
  have "sorted_wrt (\<lambda>a b. length (snd b) \<le> length (snd a)) ?r"
    using buckets_sorted_ties_in_key_order [OF h] by (rule conjunct1)
  with h show ?thesis
    by (rule conjI)
qed

text \<open>
  C6 as stated fails: with one book in the first default category and then one book of
  category \<open>7\<close>, the names are first seen in the order of the six defaults and then
  \<open>7\<close>, but among the two buckets of one book the bucket \<open>7\<close> comes first.
\<close>

theorem index_category_tie_counterexample:
  "firstSeenFrom defaultCats
     (map categoryOf [exampleBook 1 (Some (defaultCats ! 0)), exampleBook 2 (Some (map of_char ''7''))])
     = defaultCats @ [map of_char ''7'']
   \<and> booksByCategory [exampleBook 1 (Some (defaultCats ! 0)), exampleBook 2 (Some (map of_char ''7''))]
     = Inr [(map of_char ''7'', [exampleBook 2 (Some (map of_char ''7''))]),
            (defaultCats ! 0, [exampleBook 1 (Some (defaultCats ! 0))]),
            (defaultCats ! 1, []), (defaultCats ! 2, []), (defaultCats ! 3, []),
            (defaultCats ! 4, []), (defaultCats ! 5, [])]"
  by (simp add: booksByCategory_def addBook_def getProp_def categoryOf_def exampleBook_def
      defaultCats_def objectPrototypeKeys_def entries_def isArrayIndex_def isDigit_def
      indexValue_def sortBy_def byCount_def Let_def)

section \<open>The particle field: ticks and projection\<close>

lemma advance_frame:
  "p_x (advance warping p) = p_x p" "p_y (advance warping p) = p_y p"
  "p_size (advance warping p) = p_size p" "p_speed (advance warping p) = p_speed p"
  by (simp_all add: advance_def Let_def)

lemma advance_depth:
  "p_z (advance warping p) =
     (if p_z p - p_speed p * (if warping then 12 else 1) \<le> 0 then 2000
      else p_z p - p_speed p * (if warping then 12 else 1))"
  by (simp add: advance_def Let_def)

lemma fst_draw: "fst (draw warping width height ps) = map (advance warping) ps"
  by (simp add: draw_def Let_def)

lemma snd_draw:
  "snd (draw warping width height ps)
     = concat (map (\<lambda>p. project warping width height (advance warping p)) ps)"
  by (simp add: draw_def Let_def comp_def)

lemma advance_startable:
  assumes "startable p"
  shows "startable (advance warping p)" and "depthInRange (advance warping p)"
  using assms by (auto simp: startable_def depthInRange_def advance_def Let_def)

lemma frames_length: "length (frames warping width height n ps) = length ps"
  by (induction n arbitrary: ps) (simp_all add: fst_draw)

lemma frames_startable:
  "list_all startable ps \<Longrightarrow> list_all startable (frames warping width height n ps)"
proof (induction n arbitrary: ps)
  case 0
  then show ?case by simp
next
  case (Suc n)
  have "list_all startable (map (advance warping) ps)"
    using Suc.prems by (simp add: list_all_iff advance_startable)
  then show ?case
    using Suc.IH by (simp add: fst_draw)
qed

lemma frames_map_advance:
  "frames warping width height n (map (advance warping) ps)
     = map (advance warping) (frames warping width height n ps)"
proof (induction n arbitrary: ps)
  case 0
  show ?case by simp
next
  case (Suc n)
  have "frames warping width height (Suc n) (map (advance warping) ps)
      = frames warping width height n (map (advance warping) (map (advance warping) ps))"
    by (simp only: frames.simps fst_draw)
  also have "\<dots> = map (advance warping) (frames warping width height n (map (advance warping) ps))"
    by (rule Suc.IH)
  also have "frames warping width height n (map (advance warping) ps)
      = frames warping width height (Suc n) ps"
    by (simp only: frames.simps fst_draw)
  finally show ?case .
qed

lemma frames_Suc:
  "frames warping width height (Suc n) ps
     = map (advance warping) (frames warping width height n ps)"
  by (simp only: frames.simps fst_draw frames_map_advance)

lemma createParticles_startable:
  assumes "\<forall>i. 0 \<le> random i \<and> random i < 1"
  shows "list_all startable (createParticles random width height)"
proof -
  have "startable \<lparr>p_x = a, p_y = b, p_z = random j * 2000, p_size = c, p_speed = random k * 2 + 1\<rparr>"
    for a b c j k
    using assms [rule_format, of j] assms [rule_format, of k] by (simp add: startable_def)
  then show ?thesis
    by (simp add: createParticles_def list_all_iff)
qed

lemma length_createParticles: "length (createParticles random width height) = 150"
  by (simp add: createParticles_def particleCount_def)


text \<open>
  C4. With every value of \<open>Math.random()\<close> in \<open>[0, 1)\<close>, the field holds 150
  particles after any number of calls of \<open>draw\<close>, and after each call every particle's
  depth lies in \<open>(0, 2000]\<close>; a particle whose depth would go to zero or below in a
  call is set to depth 2000 in that call.
\<close>

theorem particle_field_invariant:
  assumes "\<forall>i. 0 \<le> random i \<and> random i < 1"
  shows "length (frames warping width height n (createParticles random width height)) = 150
    \<and> list_all depthInRange (frames warping width height (Suc n) (createParticles random width height))
    \<and> (\<forall>p::particle. p_z p - p_speed p * (if warping then 12 else 1) \<le> 0
          \<longrightarrow> p_z (advance warping p) = 2000)"
proof (intro conjI allI impI)
  show "length (frames warping width height n (createParticles random width height)) = 150"
    by (simp add: frames_length length_createParticles)
  have "list_all startable (frames warping width height n (createParticles random width height))"
    using assms by (intro frames_startable createParticles_startable)
  then show "list_all depthInRange
      (frames warping width height (Suc n) (createParticles random width height))"
    unfolding frames_Suc by (simp add: list_all_iff advance_startable)
next
  fix p :: particle
  assume "p_z p - p_speed p * (if warping then 12 else 1) \<le> 0"
  then show "p_z (advance warping p) = 2000"
    by (simp add: advance_depth)
qed


text \<open>C4, an instance: every random value one half, no warp, three calls of \<open>draw\<close>.\<close>

theorem particle_field_invariant_witness:
  "length (frames False 800 600 2 (createParticles (\<lambda>i. 1 / 2) 800 600)) = 150
   \<and> list_all depthInRange (frames False 800 600 (Suc 2) (createParticles (\<lambda>i. 1 / 2) 800 600))"
proof -
  have h: "\<forall>i::nat. 0 \<le> (1 / 2 :: real) \<and> (1 / 2 :: real) < 1"
    by simp
  show ?thesis
    using particle_field_invariant [of "\<lambda>i. 1 / 2" False 800 600 2, OF h] by blast
qed

subsection \<open>The move in double arithmetic\<close>

text \<open>
  \<open>expo\<close> is the exponent of the binade, and \<open>round64\<close> gives a multiple of the unit
  in the last place with a significand of 53 bits, at most half a unit away from its
  argument.
\<close>

lemma expo_bounds:
  assumes "x \<noteq> 0"
  shows "2 powi expo x \<le> \<bar>x\<bar>" and "\<bar>x\<bar> < 2 powi (expo x + 1)"
proof -
  have "2 powi expo x \<le> \<bar>x\<bar> \<and> \<bar>x\<bar> < 2 powi (expo x + 1)"
  proof (cases "1 \<le> \<bar>x\<bar>")
    case True
    define m where "m = \<lfloor>\<bar>x\<bar>\<rfloor>"
    have m: "0 < m" "real_of_int m \<le> \<bar>x\<bar>" "\<bar>x\<bar> < real_of_int m + 1"
      using True by (auto simp: m_def)
    have b: "2 ^ nat (bitlen m - 1) \<le> m" "m < 2 ^ nat (bitlen m)"
      using bitlen_bounds [OF m(1)] by auto
    have k: "1 \<le> bitlen m"
      using m(1) by (simp add: bitlen_alt_def)
    have e: "expo x = bitlen m - 1"
      using True by (simp add: expo_def m_def)
    have "(2::real) powi (bitlen m - 1) = 2 ^ nat (bitlen m - 1)"
      using k by (simp add: power_int_def)
    also have "\<dots> \<le> real_of_int m"
      using b(1) by (metis of_int_le_iff of_int_numeral of_int_power)
    finally have l: "2 powi expo x \<le> \<bar>x\<bar>"
      using m(2) e by simp
    have "m + 1 \<le> 2 ^ nat (bitlen m)"
      using b(2) by simp
    then have "real_of_int (m + 1) \<le> 2 ^ nat (bitlen m)"
      by (metis of_int_le_iff of_int_numeral of_int_power)
    moreover have "(2::real) powi (bitlen m - 1 + 1) = 2 ^ nat (bitlen m)"
      using k by (simp add: power_int_def)
    ultimately have "\<bar>x\<bar> < 2 powi (expo x + 1)"
      using m(3) e by simp
    with l show ?thesis ..
  next
    case False
    define y where "y = 1 / \<bar>x\<bar>"
    define N where "N = \<lceil>y\<rceil>"
    define k where "k = bitlen (N - 1)"
    have x: "0 < \<bar>x\<bar>" "\<bar>x\<bar> < 1"
      using assms False by auto
    have y: "1 < y"
      using x by (simp add: y_def)
    have N: "y \<le> real_of_int N" "real_of_int N - 1 < y" "0 < N - 1"
      using y by (auto simp: N_def) linarith+
    have b: "2 ^ nat (k - 1) \<le> N - 1" "N - 1 < 2 ^ nat k"
      using bitlen_bounds [OF N(3)] by (auto simp: k_def)
    have k1: "1 \<le> k"
      using N(3) by (simp add: k_def bitlen_alt_def)
    have e: "expo x = - k"
      using False by (simp add: expo_def k_def N_def y_def)
    have "N \<le> 2 ^ nat k"
      using b(2) by simp
    then have "real_of_int N \<le> 2 ^ nat k"
      by (metis of_int_le_iff of_int_numeral of_int_power)
    then have yk: "y \<le> 2 ^ nat k"
      using N(1) by linarith
    have "real_of_int (2 ^ nat (k - 1)) \<le> real_of_int (N - 1)"
      using b(1) by (simp only: of_int_le_iff)
    then have yk': "2 ^ nat (k - 1) < y"
      using N(2) by (simp only: of_int_power of_int_numeral of_int_diff of_int_1)
    have p1: "(2::real) powi (- k) = 1 / 2 ^ nat k"
      using k1 by (simp add: power_int_def field_simps)
    have p2: "(2::real) powi (- k + 1) = 1 / 2 ^ nat (k - 1)"
      using k1 by (cases "k = 1") (auto simp: power_int_def field_simps nat_diff_distrib)
    have "1 / 2 ^ nat k \<le> \<bar>x\<bar>"
      using yk x(1) by (simp add: y_def field_simps)
    moreover have "\<bar>x\<bar> < 1 / 2 ^ nat (k - 1)"
      using yk' x(1) by (simp add: y_def field_simps)
    ultimately show ?thesis
      using e p1 p2 by simp
  qed
  then show "2 powi expo x \<le> \<bar>x\<bar>" and "\<bar>x\<bar> < 2 powi (expo x + 1)"
    by simp_all
qed

lemma round64_error: "\<bar>round64 x - x\<bar> \<le> 2 powi (expo x - 52) / 2"
proof (cases "x = 0")
  case True
  then show ?thesis by (simp add: round64_def)
next
  case False
  define ulp :: real where "ulp = 2 powi (expo x - 52)"
  define q where "q = x / ulp"
  define n where "n = \<lfloor>q\<rfloor>"
  define n' where "n' = (if q - of_int n < 1 / 2 then n else if 1 / 2 < q - of_int n then n + 1
                      else if even n then n else n + 1)"
  have u: "0 < ulp"
    by (simp add: ulp_def)
  have r: "round64 x = of_int n' * ulp"
    using False by (simp add: round64_def Let_def ulp_def q_def n_def n'_def)
  have "\<bar>real_of_int n' - q\<bar> \<le> 1 / 2"
    unfolding n'_def n_def by (auto simp: abs_le_iff)
  then have "\<bar>real_of_int n' - q\<bar> * ulp \<le> 1 / 2 * ulp"
    using u by (intro mult_right_mono) simp_all
  moreover have "round64 x - x = (real_of_int n' - q) * ulp"
    using u by (simp add: r q_def field_simps)
  ultimately show ?thesis
    using u by (simp add: abs_mult ulp_def)
qed

lemma round64_grid:
  assumes "x \<noteq> 0"
  shows "\<exists>n. round64 x = real_of_int n * 2 powi (expo x - 52) \<and> 2 ^ 52 \<le> \<bar>n\<bar> \<and> \<bar>n\<bar> \<le> 2 ^ 53"
proof -
  define ulp :: real where "ulp = 2 powi (expo x - 52)"
  define q where "q = x / ulp"
  define n where "n = \<lfloor>q\<rfloor>"
  define n' where "n' = (if q - of_int n < 1 / 2 then n else if 1 / 2 < q - of_int n then n + 1
                      else if even n then n else n + 1)"
  have u: "0 < ulp"
    by (simp add: ulp_def)
  have r: "round64 x = of_int n' * ulp"
    using assms by (simp add: round64_def Let_def ulp_def q_def n_def n'_def)
  have "2 powi expo x = 2 ^ 52 * ulp" "2 powi (expo x + 1) = 2 ^ 53 * ulp"
    by (simp_all add: ulp_def power_int_diff power_int_add)
  then have "2 ^ 52 * ulp \<le> \<bar>x\<bar>" "\<bar>x\<bar> < 2 ^ 53 * ulp"
    using expo_bounds [OF assms] by simp_all
  then have q: "2 ^ 52 \<le> \<bar>q\<bar>" "\<bar>q\<bar> < 2 ^ 53"
    using u by (simp_all add: q_def field_simps abs_mult)
  have c: "\<bar>real_of_int n' - q\<bar> \<le> 1 / 2"
    unfolding n'_def n_def by (auto simp: abs_le_iff)
  have "2 ^ 52 - 1 < \<bar>real_of_int n'\<bar>" "\<bar>real_of_int n'\<bar> < 2 ^ 53 + 1"
    using q c by linarith+
  then have "real_of_int (2 ^ 52 - 1) < real_of_int \<bar>n'\<bar>"
    "real_of_int \<bar>n'\<bar> < real_of_int (2 ^ 53 + 1)"
    by simp_all
  then have "2 ^ 52 - 1 < \<bar>n'\<bar>" "\<bar>n'\<bar> < 2 ^ 53 + 1"
    by (simp_all only: of_int_less_iff)
  then have "2 ^ 52 \<le> \<bar>n'\<bar> \<and> \<bar>n'\<bar> \<le> 2 ^ 53"
    by simp
  with r show ?thesis
    unfolding ulp_def by blast
qed

lemma advance64_frame:
  "p_x (advance64 warping p) = p_x p" "p_y (advance64 warping p) = p_y p"
  "p_size (advance64 warping p) = p_size p" "p_speed (advance64 warping p) = p_speed p"
  by (simp_all add: advance64_def Let_def)

lemma advance64_depth:
  "p_z (advance64 warping p) =
     (if dsub (p_z p) (dmul (p_speed p) (if warping then 12 else 1)) \<le> 0 then 2000
      else dsub (p_z p) (dmul (p_speed p) (if warping then 12 else 1)))"
  by (simp add: advance64_def Let_def)

lemma decrement_error:
  "\<bar>dsub z (dmul s m) - (z - s * m)\<bar>
     \<le> 2 powi (expo (z - dmul s m) - 52) / 2 + 2 powi (expo (s * m) - 52) / 2"
proof -
  have "\<bar>dsub z (dmul s m) - (z - dmul s m)\<bar> \<le> 2 powi (expo (z - dmul s m) - 52) / 2"
    unfolding dsub_def by (rule round64_error)
  moreover have "\<bar>dmul s m - s * m\<bar> \<le> 2 powi (expo (s * m) - 52) / 2"
    unfolding dmul_def by (rule round64_error)
  ultimately show ?thesis
    by linarith
qed

lemma advance64_positive: "0 < p_z (advance64 warping p)"
  by (simp add: advance64_depth)

lemma example_decrement: "dsub 1000 (dmul 3 12) = 964"
  by code_simp

text \<open>
  C7 (as the code has it). A call of \<open>draw\<close> keeps the number of particles and leaves
  \<open>x\<close>, \<open>y\<close>, \<open>size\<close> and \<open>speed\<close> of every particle as they were, also when the
  particle is recycled. The depth becomes the double the engine computes for
  \<open>z - speed * 12\<close> while warping and for \<open>z - speed * 1\<close> otherwise, or 2000 when
  that double is zero or below; the double is within half a unit in the last place, for
  each of the two operations, of the exact difference, and need not be equal to it.
\<close>

theorem tick64_changes_only_depth:
  assumes "i < length ps"
  shows "length (tick64 warping ps) = length ps
    \<and> p_x (tick64 warping ps ! i) = p_x (ps ! i)
    \<and> p_y (tick64 warping ps ! i) = p_y (ps ! i)
    \<and> p_size (tick64 warping ps ! i) = p_size (ps ! i)
    \<and> p_speed (tick64 warping ps ! i) = p_speed (ps ! i)
    \<and> p_z (tick64 warping ps ! i)
        = (if dsub (p_z (ps ! i)) (dmul (p_speed (ps ! i)) (if warping then 12 else 1)) \<le> 0
           then 2000
           else dsub (p_z (ps ! i)) (dmul (p_speed (ps ! i)) (if warping then 12 else 1)))
    \<and> \<bar>dsub (p_z (ps ! i)) (dmul (p_speed (ps ! i)) (if warping then 12 else 1))
         - (p_z (ps ! i) - p_speed (ps ! i) * (if warping then 12 else 1))\<bar>
        \<le> 2 powi (expo (p_z (ps ! i) - dmul (p_speed (ps ! i)) (if warping then 12 else 1)) - 52) / 2
          + 2 powi (expo (p_speed (ps ! i) * (if warping then 12 else 1)) - 52) / 2"
  using assms decrement_error [of "p_z (ps ! i)" "p_speed (ps ! i)" "if warping then 12 else 1"]
  by (simp add: tick64_def advance64_frame advance64_depth)

text \<open>C7, an instance: a particle at depth 1000 with speed 3, while warping.\<close>

theorem tick64_changes_only_depth_witness:
  "(0::nat) < length [\<lparr>p_x = 100, p_y = -50, p_z = 1000, p_size = 2, p_speed = 3\<rparr>,
                      \<lparr>p_x = 7, p_y = 8, p_z = 20, p_size = 2, p_speed = 3\<rparr>]
   \<and> tick64 True [\<lparr>p_x = 100, p_y = -50, p_z = 1000, p_size = 2, p_speed = 3\<rparr>,
                   \<lparr>p_x = 7, p_y = 8, p_z = 20, p_size = 2, p_speed = 3\<rparr>] ! 0
       = \<lparr>p_x = 100, p_y = -50, p_z = 964, p_size = 2, p_speed = 3\<rparr>"
proof -
  let ?ps = "[\<lparr>p_x = 100, p_y = -50, p_z = 1000, p_size = 2, p_speed = 3\<rparr>,
              \<lparr>p_x = 7, p_y = 8, p_z = 20, p_size = 2, p_speed = 3\<rparr>]"
  have h: "(0::nat) < length ?ps"
    by simp
  have "p_x (tick64 True ?ps ! 0) = 100" "p_y (tick64 True ?ps ! 0) = -50"
    "p_size (tick64 True ?ps ! 0) = 2" "p_speed (tick64 True ?ps ! 0) = 3"
    "p_z (tick64 True ?ps ! 0) = 964"
    using tick64_changes_only_depth [OF h, of True] by (simp_all add: example_decrement)
  then have "tick64 True ?ps ! 0 = \<lparr>p_x = 100, p_y = -50, p_z = 964, p_size = 2, p_speed = 3\<rparr>"
    by (intro particle.equality) simp_all
  with h show ?thesis
    by (rule conjI)
qed

text \<open>
  C7 as stated fails for the exact decrement: with the doubles written
  15.600000000000001 and 1.3 as depth and speed, while warping, the exact difference
  \<open>z - speed * 12\<close> is \<open>1 / 2 ^ 50\<close>, above zero, but the engine's product is
  the depth itself, its difference is zero, and the particle is recycled to depth 2000.
\<close>

theorem exact_decrement_counterexample:
  "round64 (8782019273372468 / 2 ^ 49) = 8782019273372468 / 2 ^ 49
   \<and> round64 (5854679515581645 / 2 ^ 52) = 5854679515581645 / 2 ^ 52
   \<and> depthInRange \<lparr>p_x = 0, p_y = 0, p_z = 8782019273372468 / 2 ^ 49, p_size = 1,
                     p_speed = 5854679515581645 / 2 ^ 52\<rparr>
   \<and> 8782019273372468 / 2 ^ 49 - 5854679515581645 / 2 ^ 52 * 12 = (1 / 2 ^ 50 :: real)
   \<and> p_z (advance64 True \<lparr>p_x = 0, p_y = 0, p_z = 8782019273372468 / 2 ^ 49, p_size = 1,
                            p_speed = 5854679515581645 / 2 ^ 52\<rparr>) = 2000"
  by code_simp

text \<open>
  C10. With every value of \<open>Math.random()\<close> in \<open>[0, 1)\<close>, in every call of
  \<open>draw\<close> every particle has speed at least 1 and the depth it has after the move,
  which is the depth the projection divides by, is positive: \<open>draw\<close> projects the moved
  particles, not the ones it was given.
\<close>

theorem perspective_divisor_positive:
  assumes "\<forall>i. 0 \<le> random i \<and> random i < 1"
  shows "list_all (\<lambda>p. 1 \<le> p_speed p \<and> 0 < p_z (advance warping p))
           (frames warping width height n (createParticles random width height))
    \<and> snd (draw warping width height (frames warping width height n (createParticles random width height)))
        = concat (map (\<lambda>p. project warping width height (advance warping p))
            (frames warping width height n (createParticles random width height)))"
proof
  have "list_all startable (frames warping width height n (createParticles random width height))"
    using assms by (intro frames_startable createParticles_startable)
  then show "list_all (\<lambda>p. 1 \<le> p_speed p \<and> 0 < p_z (advance warping p))
           (frames warping width height n (createParticles random width height))"
    using advance_startable(2) [of _ warping]
    by (auto simp: list_all_iff startable_def depthInRange_def)
  show "snd (draw warping width height (frames warping width height n (createParticles random width height)))
        = concat (map (\<lambda>p. project warping width height (advance warping p))
            (frames warping width height n (createParticles random width height)))"
    by (rule snd_draw)
qed


text \<open>
  C10, an instance: every random value zero. The first particle starts at depth exactly
  0, and in the first call of \<open>draw\<close> the depth divided by is positive.
\<close>

theorem perspective_divisor_positive_witness:
  "p_z (createParticles (\<lambda>i. 0) 800 600 ! 0) = 0
   \<and> list_all (\<lambda>p. 1 \<le> p_speed p \<and> 0 < p_z (advance True p))
        (frames True 800 600 0 (createParticles (\<lambda>i. 0) 800 600))"
proof -
  have h: "\<forall>i::nat. 0 \<le> (0::real) \<and> (0::real) < 1"
    by simp
  have "p_z (createParticles (\<lambda>i. 0) 800 600 ! 0) = 0"
    by (simp add: createParticles_def particleCount_def)
  then show ?thesis
    using perspective_divisor_positive [of "\<lambda>i. 0" True 800 600 0, OF h] by blast
qed






end
